theory Spec2Isabelle
  imports Main
begin

section \<open>Python strings\<close>

text \<open>
  A Python string is a sequence of code points, and \<^verbatim>\<open>len\<close> counts them. The stemmer's
  tables name code points below 256 only (the Spanish letters, with the accented vowels
  written as \<^verbatim>\<open>\xE1\<close>, \<^verbatim>\<open>\xE9\<close>, ...); \<^term>\<open>Latin1 c\<close> is such a code point, so that
  \<^term>\<open>Latin1 (CHR 0xE1)\<close> is the source's \<^verbatim>\<open>"\xE1"\<close>. The input may hold others.
  \<^verbatim>\<open>str.lower\<close> maps every code point to one code point, with one exception:
  U+0130, the capital I with a dot above, becomes \<open>i\<close> followed by U+0307, the combining
  dot above. The model covers the code points below 256 and these two, a set that
  \<^verbatim>\<open>str.lower\<close> does not lead out of.
\<close>

datatype codepoint = Latin1 char | U0130 | U0307

type_synonym ustring = "codepoint list"

text \<open>A string literal of the source, with code points below 256.\<close>

definition lit :: "string \<Rightarrow> ustring" where
  "lit s = map Latin1 s"

datatype error = IndexError

text \<open>\<^verbatim>\<open>w.endswith(suffix)\<close>\<close>

definition endswith :: "ustring \<Rightarrow> ustring \<Rightarrow> bool" where
  "endswith w suffix =
     (length suffix \<le> length w \<and> drop (length w - length suffix) w = suffix)"

text \<open>\<^verbatim>\<open>w.endswith((s1, s2, ...))\<close>: some member of the tuple is a suffix.\<close>

definition endswith_any :: "ustring \<Rightarrow> ustring list \<Rightarrow> bool" where
  "endswith_any w sufs = list_ex (endswith w) sufs"

text \<open>
  \<^verbatim>\<open>w[:-n]\<close> for \<open>n \<ge> 0\<close>: the slice never raises; it is empty when \<open>w\<close> has at
  most \<open>n\<close> code points, and \<^verbatim>\<open>w[:-0]\<close> is \<^verbatim>\<open>w[:0]\<close>, the empty string.
\<close>

definition strip_last :: "nat \<Rightarrow> ustring \<Rightarrow> ustring" where
  "strip_last n w = (if n = 0 then [] else take (length w - n) w)"

text \<open>\<^verbatim>\<open>w[-n:]\<close> for \<open>n > 0\<close>: the last \<open>n\<close> code points, or all of \<open>w\<close> when it is shorter.\<close>

definition last_n :: "nat \<Rightarrow> ustring \<Rightarrow> ustring" where
  "last_n n w = drop (length w - n) w"

text \<open>
  \<^verbatim>\<open>w[-n - 1:-n]\<close> for \<open>n > 0\<close>: the one code point in front of the last \<open>n\<close>, or the
  empty string when \<open>w\<close> has at most \<open>n\<close> code points (both bounds are clamped to 0).
\<close>

definition char_before_last :: "nat \<Rightarrow> ustring \<Rightarrow> ustring" where
  "char_before_last n w = drop (length w - (n + 1)) (take (length w - n) w)"

text \<open>
  \<^verbatim>\<open>w.replace(old, new)\<close>: every non-overlapping occurrence of \<open>old\<close>, found from the
  left, is replaced. For an empty \<open>old\<close> Python puts \<open>new\<close> in front of every code point
  and at the end.
\<close>

function replace_scan :: "ustring \<Rightarrow> ustring \<Rightarrow> ustring \<Rightarrow> ustring" where
  "replace_scan old new [] = []"
| "replace_scan old new (x # xs) =
     (if old \<noteq> [] \<and> take (length old) (x # xs) = old
      then new @ replace_scan old new (drop (length old) (x # xs))
      else x # replace_scan old new xs)"
  by pat_completeness auto
termination
  by (relation "measure (\<lambda>(old, new, w). length w)") auto

definition replace :: "ustring \<Rightarrow> ustring \<Rightarrow> ustring \<Rightarrow> ustring" where
  "replace old new w =
     (if old = [] then new @ concat (map (\<lambda>c. c # new) w) else replace_scan old new w)"

text \<open>
  \<^verbatim>\<open>w.lower()\<close>. On code points below 256 the capital letters \<open>A\<close> to \<open>Z\<close> and the
  capital letters of the upper half (\<open>0xC0\<close> to \<open>0xDE\<close>, the multiplication sign \<open>0xD7\<close>
  apart) move up by 32, and every other code point is left as it is. U+0130 becomes the
  two code points \<open>i\<close> and U+0307, so the result can be longer than the string; U+0307
  has no case.
\<close>

definition lower_char :: "char \<Rightarrow> char" where
  "lower_char c =
     (let n = (of_char c :: nat)
      in if (65 \<le> n \<and> n \<le> 90) \<or> (192 \<le> n \<and> n \<le> 222 \<and> n \<noteq> 215)
         then char_of (n + 32) else c)"

fun lower_codepoint :: "codepoint \<Rightarrow> ustring" where
  "lower_codepoint (Latin1 c) = [Latin1 (lower_char c)]"
| "lower_codepoint U0130 = [Latin1 (CHR ''i''), U0307]"
| "lower_codepoint U0307 = [U0307]"

definition lower :: "ustring \<Rightarrow> ustring" where
  "lower w = concat (map lower_codepoint w)"

section \<open>The tables of the Spanish stemmer\<close>

definition vowels :: ustring where
  "vowels = lit (''aeiou'' @ [CHR 0xE1, CHR 0xE9, CHR 0xED, CHR 0xF3, CHR 0xFA, CHR 0xFC])"

definition step0_suffixes :: "ustring list" where
  "step0_suffixes =
     map lit
       [''selas'', ''selos'', ''sela'', ''selo'', ''las'', ''les'', ''los'', ''nos'',
        ''me'', ''se'', ''la'', ''le'', ''lo'']"

definition step1_suffixes :: "ustring list" where
  "step1_suffixes =
     map lit
       [''amientos'', ''imientos'', ''amiento'', ''imiento'', ''aciones'', ''uciones'',
        ''adoras'', ''adores'', ''ancias'', ''log'' @ [CHR 0xED] @ ''as'', ''encias'',
        ''amente'', ''idades'', ''anzas'', ''ismos'', ''ables'', ''ibles'', ''istas'',
        ''adora'', ''aci'' @ [CHR 0xF3] @ ''n'', ''antes'', ''ancia'',
        ''log'' @ [CHR 0xED] @ ''a'', ''uci'' @ [CHR 0xF3] @ ''n'', ''encia'', ''mente'',
        ''anza'', ''icos'', ''icas'', ''ismo'', ''able'', ''ible'', ''ista'', ''osos'',
        ''osas'', ''ador'', ''ante'', ''idad'', ''ivas'', ''ivos'', ''ico'', ''ica'',
        ''oso'', ''osa'', ''iva'', ''ivo'']"

definition step2a_suffixes :: "ustring list" where
  "step2a_suffixes =
     map lit
       [''yeron'', ''yendo'', ''yamos'', ''yais'', ''yan'', ''yen'', ''yas'', ''yes'',
        ''ya'', ''ye'', ''yo'', ''y'' @ [CHR 0xF3]]"

definition step2b_suffixes :: "ustring list" where
  "step2b_suffixes =
     map lit
       [''ar'' @ [CHR 0xED] @ ''amos'', ''er'' @ [CHR 0xED] @ ''amos'',
        ''ir'' @ [CHR 0xED] @ ''amos'', ''i'' @ [CHR 0xE9] @ ''ramos'',
        ''i'' @ [CHR 0xE9] @ ''semos'', ''ar'' @ [CHR 0xED] @ ''ais'', ''aremos'',
        ''er'' @ [CHR 0xED] @ ''ais'', ''eremos'', ''ir'' @ [CHR 0xED] @ ''ais'',
        ''iremos'', ''ierais'', ''ieseis'', ''asteis'', ''isteis'',
        [CHR 0xE1] @ ''bamos'', [CHR 0xE1] @ ''ramos'', [CHR 0xE1] @ ''semos'',
        ''ar'' @ [CHR 0xED] @ ''an'', ''ar'' @ [CHR 0xED] @ ''as'',
        ''ar'' @ [CHR 0xE9] @ ''is'', ''er'' @ [CHR 0xED] @ ''an'',
        ''er'' @ [CHR 0xED] @ ''as'', ''er'' @ [CHR 0xE9] @ ''is'',
        ''ir'' @ [CHR 0xED] @ ''an'', ''ir'' @ [CHR 0xED] @ ''as'',
        ''ir'' @ [CHR 0xE9] @ ''is'',
        ''ieran'', ''iesen'', ''ieron'', ''iendo'', ''ieras'', ''ieses'', ''abais'',
        ''arais'', ''aseis'', [CHR 0xE9] @ ''amos'', ''ar'' @ [CHR 0xE1] @ ''n'',
        ''ar'' @ [CHR 0xE1] @ ''s'', ''ar'' @ [CHR 0xED] @ ''a'',
        ''er'' @ [CHR 0xE1] @ ''n'', ''er'' @ [CHR 0xE1] @ ''s'',
        ''er'' @ [CHR 0xED] @ ''a'', ''ir'' @ [CHR 0xE1] @ ''n'',
        ''ir'' @ [CHR 0xE1] @ ''s'', ''ir'' @ [CHR 0xED] @ ''a'', ''iera'', ''iese'',
        ''aste'', ''iste'', ''aban'', ''aran'', ''asen'', ''aron'', ''ando'', ''abas'',
        ''adas'', ''idas'', ''aras'', ''ases'', [CHR 0xED] @ ''ais'', ''ados'', ''idos'',
        ''amos'', ''imos'', ''emos'', ''ar'' @ [CHR 0xE1], ''ar'' @ [CHR 0xE9],
        ''er'' @ [CHR 0xE1], ''er'' @ [CHR 0xE9], ''ir'' @ [CHR 0xE1],
        ''ir'' @ [CHR 0xE9], ''aba'', ''ada'', ''ida'', ''ara'', ''ase'',
        [CHR 0xED] @ ''an'', ''ado'', ''ido'', [CHR 0xED] @ ''as'', [CHR 0xE1] @ ''is'',
        [CHR 0xE9] @ ''is'', [CHR 0xED] @ ''a'', ''ad'', ''ed'', ''id'', ''an'',
        ''i'' @ [CHR 0xF3], ''ar'', ''er'', ''ir'', ''as'', [CHR 0xED] @ ''s'', ''en'',
        ''es'']"

definition step3_suffixes :: "ustring list" where
  "step3_suffixes =
     map lit
       [''os'', ''a'', ''e'', ''o'', [CHR 0xE1], [CHR 0xE9], [CHR 0xED], [CHR 0xF3]]"

section \<open>The regions\<close>

text \<open>
  Modelled from the spec: the helpers \<^verbatim>\<open>_r1r2_standard\<close> and \<^verbatim>\<open>_rv_standard\<close> of the
  base class \<^verbatim>\<open>_StandardStemmer\<close> (module \<^verbatim>\<open>bases\<close>) are not part of the sources at
  hand. The specification describes them as the standard Snowball regions: R1 is what
  follows the first non-vowel that comes after a vowel, R2 is R1 computed inside R1, and
  RV is, for a word whose second letter is a consonant, what follows the next vowel; for
  a word that starts with two vowels, what follows the next consonant; otherwise what
  follows the third letter. A region whose position is not found is empty.
\<close>

fun after_vowel_consonant :: "ustring \<Rightarrow> ustring \<Rightarrow> ustring" where
  "after_vowel_consonant vs (a # b # rest) =
     (if a \<in> set vs \<and> b \<notin> set vs then rest else after_vowel_consonant vs (b # rest))"
| "after_vowel_consonant vs w = []"

fun after_vowel :: "ustring \<Rightarrow> ustring \<Rightarrow> ustring" where
  "after_vowel vs [] = []"
| "after_vowel vs (x # xs) = (if x \<in> set vs then xs else after_vowel vs xs)"

fun after_consonant :: "ustring \<Rightarrow> ustring \<Rightarrow> ustring" where
  "after_consonant vs [] = []"
| "after_consonant vs (x # xs) = (if x \<notin> set vs then xs else after_consonant vs xs)"

definition r1r2_standard :: "ustring \<Rightarrow> ustring \<Rightarrow> ustring \<times> ustring" where
  "r1r2_standard w vs =
     (let a = after_vowel_consonant vs w in (a, after_vowel_consonant vs a))"

fun rv_standard :: "ustring \<Rightarrow> ustring \<Rightarrow> ustring" where
  "rv_standard (a # b # rest) vs =
     (if b \<notin> set vs then after_vowel vs rest
      else if a \<in> set vs then after_consonant vs rest
      else drop 1 rest)"
| "rv_standard w vs = []"

section \<open>The state of one call\<close>

text \<open>
  The local variables of \<^verbatim>\<open>stem\<close>: the word, the three regions (each held as a string,
  a slice of the word taken when the regions were computed) and the flag of step 1.
\<close>

record state =
  word :: ustring
  r1 :: ustring
  r2 :: ustring
  rv :: ustring
  step1_success :: bool

text \<open>\<^verbatim>\<open>.replace("\xE1", "a").replace("\xE9", "e").replace("\xED", "i")\<close>\<close>

definition unaccent_aei :: "ustring \<Rightarrow> ustring" where
  "unaccent_aei w =
     replace (lit [CHR 0xED]) (lit ''i'')
       (replace (lit [CHR 0xE9]) (lit ''e'') (replace (lit [CHR 0xE1]) (lit ''a'') w))"

section \<open>Step 0: attached pronoun\<close>

text \<open>The three-way test on what stands in front of the suffix in RV.\<close>

definition step0_branch :: "ustring \<Rightarrow> state \<Rightarrow> state" where
  "step0_branch suffix s =
     (let n = length suffix in
      if endswith_any (strip_last n (rv s))
           [lit (''i'' @ [CHR 0xE9] @ ''ndo''), lit ([CHR 0xE1] @ ''ndo''), lit ([CHR 0xE1] @ ''r''),
            lit ([CHR 0xE9] @ ''r''), lit ([CHR 0xED] @ ''r'')]
      then s\<lparr>word := unaccent_aei (strip_last n (word s)),
             r1 := unaccent_aei (strip_last n (r1 s)),
             r2 := unaccent_aei (strip_last n (r2 s)),
             rv := unaccent_aei (strip_last n (rv s))\<rparr>
      else if endswith_any (strip_last n (rv s))
           [lit ''ando'', lit ''iendo'', lit ''ar'', lit ''er'', lit ''ir'']
      then s\<lparr>word := strip_last n (word s), r1 := strip_last n (r1 s),
             r2 := strip_last n (r2 s), rv := strip_last n (rv s)\<rparr>
      else if endswith (strip_last n (rv s)) (lit ''yendo'') \<and>
              endswith (strip_last n (word s)) (lit ''uyendo'')
      then s\<lparr>word := strip_last n (word s), r1 := strip_last n (r1 s),
             r2 := strip_last n (r2 s), rv := strip_last n (rv s)\<rparr>
      else s)"

definition step0_body :: "ustring \<Rightarrow> state \<Rightarrow> state" where
  "step0_body suffix s = (if endswith (rv s) suffix then step0_branch suffix s else s)"

text \<open>The loop leaves at the first suffix the word ends with, whatever RV holds.\<close>

fun step0_loop :: "ustring list \<Rightarrow> state \<Rightarrow> state" where
  "step0_loop [] s = s"
| "step0_loop (suffix # rest) s =
     (if endswith (word s) suffix then step0_body suffix s else step0_loop rest s)"

definition step0 :: "state \<Rightarrow> state" where
  "step0 s = step0_loop step0_suffixes s"

section \<open>Step 1: standard suffix removal\<close>

text \<open>The branch of \<^verbatim>\<open>"amente"\<close> inside R1.\<close>

definition step1_amente :: "state \<Rightarrow> state" where
  "step1_amente s =
     (let s1 = s\<lparr>step1_success := True, word := strip_last 6 (word s),
                 r2 := strip_last 6 (r2 s), rv := strip_last 6 (rv s)\<rparr>
      in if endswith (r2 s1) (lit ''iv'') then
           let s2 = s1\<lparr>word := strip_last 2 (word s1), r2 := strip_last 2 (r2 s1),
                        rv := strip_last 2 (rv s1)\<rparr>
           in if endswith (r2 s2) (lit ''at'')
              then s2\<lparr>word := strip_last 2 (word s2), rv := strip_last 2 (rv s2)\<rparr>
              else s2
         else if endswith_any (r2 s1) [lit ''os'', lit ''ic'', lit ''ad'']
         then s1\<lparr>word := strip_last 2 (word s1), rv := strip_last 2 (rv s1)\<rparr>
         else s1)"

text \<open>
  The inner loop of the \<^verbatim>\<open>"idad"\<close> family: it has no \<^verbatim>\<open>break\<close>, and tests the same
  \<^verbatim>\<open>r2\<close> for each of the three endings.
\<close>

definition strip_pre_suff :: "ustring \<Rightarrow> state \<Rightarrow> state" where
  "strip_pre_suff pre_suff s =
     (if endswith (r2 s) pre_suff
      then s\<lparr>word := strip_last (length pre_suff) (word s),
             rv := strip_last (length pre_suff) (rv s)\<rparr>
      else s)"

text \<open>The branch of a suffix inside R2, with its families in the order of the source.\<close>

definition step1_r2 :: "ustring \<Rightarrow> state \<Rightarrow> state" where
  "step1_r2 suffix s0 =
     (let s = s0\<lparr>step1_success := True\<rparr>; n = length suffix in
      if suffix \<in> set [lit ''adora'', lit ''ador'', lit (''aci'' @ [CHR 0xF3] @ ''n''), lit ''adoras'',
                        lit ''adores'', lit ''aciones'', lit ''ante'', lit ''antes'', lit ''ancia'',
                        lit ''ancias'']
      then let s1 = s\<lparr>word := strip_last n (word s), r2 := strip_last n (r2 s),
                        rv := strip_last n (rv s)\<rparr>
           in if endswith (r2 s1) (lit ''ic'')
              then s1\<lparr>word := strip_last 2 (word s1), rv := strip_last 2 (rv s1)\<rparr>
              else s1
      else if suffix \<in> set [lit (''log'' @ [CHR 0xED] @ ''a''), lit (''log'' @ [CHR 0xED] @ ''as'')]
      then s\<lparr>word := replace suffix (lit ''log'') (word s),
             rv := replace suffix (lit ''log'') (rv s)\<rparr>
      else if suffix \<in> set [lit (''uci'' @ [CHR 0xF3] @ ''n''), lit ''uciones'']
      then s\<lparr>word := replace suffix (lit ''u'') (word s), rv := replace suffix (lit ''u'') (rv s)\<rparr>
      else if suffix \<in> set [lit ''encia'', lit ''encias'']
      then s\<lparr>word := replace suffix (lit ''ente'') (word s),
             rv := replace suffix (lit ''ente'') (rv s)\<rparr>
      else if suffix = lit ''mente''
      then let s1 = s\<lparr>word := strip_last 5 (word s), r2 := strip_last 5 (r2 s),
                        rv := strip_last 5 (rv s)\<rparr>
           in if endswith_any (r2 s1) [lit ''ante'', lit ''able'', lit ''ible'']
              then s1\<lparr>word := strip_last 4 (word s1), rv := strip_last 4 (rv s1)\<rparr>
              else s1
      else if suffix \<in> set [lit ''idad'', lit ''idades'']
      then let s1 = s\<lparr>word := strip_last n (word s), r2 := strip_last n (r2 s),
                        rv := strip_last n (rv s)\<rparr>
           in fold strip_pre_suff [lit ''abil'', lit ''ic'', lit ''iv''] s1
      else if suffix \<in> set [lit ''ivo'', lit ''iva'', lit ''ivos'', lit ''ivas'']
      then let s1 = s\<lparr>word := strip_last n (word s), r2 := strip_last n (r2 s),
                        rv := strip_last n (rv s)\<rparr>
           in if endswith (r2 s1) (lit ''at'')
              then s1\<lparr>word := strip_last 2 (word s1), rv := strip_last 2 (rv s1)\<rparr>
              else s1
      else s\<lparr>word := strip_last n (word s), rv := strip_last n (rv s)\<rparr>)"

definition step1_body :: "ustring \<Rightarrow> state \<Rightarrow> state" where
  "step1_body suffix s =
     (if suffix = lit ''amente'' \<and> endswith (r1 s) suffix then step1_amente s
      else if endswith (r2 s) suffix then step1_r2 suffix s
      else s)"

fun step1_loop :: "ustring list \<Rightarrow> state \<Rightarrow> state" where
  "step1_loop [] s = s"
| "step1_loop (suffix # rest) s =
     (if endswith (word s) suffix then step1_body suffix s else step1_loop rest s)"

definition step1 :: "state \<Rightarrow> state" where
  "step1 s = step1_loop step1_suffixes s"

section \<open>Steps 2a and 2b: verb suffixes\<close>

fun step2a_loop :: "ustring list \<Rightarrow> state \<Rightarrow> state" where
  "step2a_loop [] s = s"
| "step2a_loop (suffix # rest) s =
     (if endswith (rv s) suffix \<and> char_before_last (length suffix) (word s) = lit ''u''
      then s\<lparr>word := strip_last (length suffix) (word s),
             rv := strip_last (length suffix) (rv s)\<rparr>
      else step2a_loop rest s)"

definition step2a :: "state \<Rightarrow> state" where
  "step2a s = step2a_loop step2a_suffixes s"

definition step2b_body :: "ustring \<Rightarrow> state \<Rightarrow> state" where
  "step2b_body suffix s =
     (if suffix \<in> set [lit ''en'', lit ''es'', lit ([CHR 0xE9] @ ''is''), lit ''emos'']
      then let s1 = s\<lparr>word := strip_last (length suffix) (word s),
                        rv := strip_last (length suffix) (rv s)\<rparr>;
               s2 = (if endswith (word s1) (lit ''gu'')
                     then s1\<lparr>word := strip_last 1 (word s1)\<rparr> else s1)
           in if endswith (rv s2) (lit ''gu'') then s2\<lparr>rv := strip_last 1 (rv s2)\<rparr> else s2
      else s\<lparr>word := strip_last (length suffix) (word s),
             rv := strip_last (length suffix) (rv s)\<rparr>)"

fun step2b_loop :: "ustring list \<Rightarrow> state \<Rightarrow> state" where
  "step2b_loop [] s = s"
| "step2b_loop (suffix # rest) s =
     (if endswith (rv s) suffix then step2b_body suffix s else step2b_loop rest s)"

definition step2b :: "state \<Rightarrow> state" where
  "step2b s = step2b_loop step2b_suffixes s"

section \<open>Step 3: residual suffix\<close>

text \<open>
  \<^verbatim>\<open>rv[-1]\<close> is an index, not a slice: it raises \<^verbatim>\<open>IndexError\<close> on the empty string.
  Python's \<^verbatim>\<open>and\<close> reads it only when \<^verbatim>\<open>word[-2:] == "gu"\<close> holds.
\<close>

definition step3_body :: "ustring \<Rightarrow> state \<Rightarrow> error + state" where
  "step3_body suffix s =
     (if suffix \<in> set [lit ''e'', lit [CHR 0xE9]]
      then let s1 = s\<lparr>word := strip_last (length suffix) (word s),
                        rv := strip_last (length suffix) (rv s)\<rparr>
           in if last_n 2 (word s1) = lit ''gu''
              then (if rv s1 = [] then Inl IndexError
                    else if last (rv s1) = Latin1 (CHR ''u'')
                    then Inr (s1\<lparr>word := strip_last 1 (word s1)\<rparr>)
                    else Inr s1)
              else Inr s1
      else Inr (s\<lparr>word := strip_last (length suffix) (word s)\<rparr>))"

fun step3_loop :: "ustring list \<Rightarrow> state \<Rightarrow> error + state" where
  "step3_loop [] s = Inr s"
| "step3_loop (suffix # rest) s =
     (if endswith (rv s) suffix then step3_body suffix s else step3_loop rest s)"

definition step3 :: "state \<Rightarrow> error + state" where
  "step3 s = step3_loop step3_suffixes s"

section \<open>The stemmer\<close>

text \<open>The last statement: the five accented vowels are replaced in what is left.\<close>

definition unaccent :: "ustring \<Rightarrow> ustring" where
  "unaccent w =
     replace (lit [CHR 0xFA]) (lit ''u'')
       (replace (lit [CHR 0xF3]) (lit ''o'')
         (replace (lit [CHR 0xED]) (lit ''i'')
           (replace (lit [CHR 0xE9]) (lit ''e'') (replace (lit [CHR 0xE1]) (lit ''a'') w))))"

text \<open>The state after the regions are computed, before step 0.\<close>

definition init :: "ustring \<Rightarrow> state" where
  "init w0 =
     (let w = lower w0;
          (a, b) = r1r2_standard w vowels;
          v = rv_standard w vowels
      in \<lparr>word = w, r1 = a, r2 = b, rv = v, step1_success = False\<rparr>)"

text \<open>Steps 2a and 2b stand under the same test of the flag.\<close>

definition step2 :: "state \<Rightarrow> state" where
  "step2 s = (if \<not> step1_success s then step2b (step2a s) else s)"

definition run :: "state \<Rightarrow> error + ustring" where
  "run s =
     (case step3 (step2 (step1 (step0 s))) of
        Inl e \<Rightarrow> Inl e
      | Inr s3 \<Rightarrow> Inr (unaccent (word s3)))"

definition stem :: "ustring \<Rightarrow> error + ustring" where
  "stem w = run (init w)"

section \<open>Notions the properties are stated with\<close>

text \<open>
  Step 0 as the specification words it: the suffix acted upon is the first one of the
  table that both the word and RV end with, and the three-way test is made on it.
\<close>

definition step0_spec :: "state \<Rightarrow> state" where
  "step0_spec s =
     (case find (\<lambda>suffix. endswith (word s) suffix \<and> endswith (rv s) suffix)
             step0_suffixes of
        None \<Rightarrow> s
      | Some suffix \<Rightarrow> step0_branch suffix s)"

text \<open>
  The regions are valid for the current word: each is a suffix of it, and
  \<open>len(r2) \<le> len(r1) \<le> len(word)\<close>.
\<close>

definition regions_valid :: "state \<Rightarrow> bool" where
  "regions_valid s =
     (endswith (word s) (r1 s) \<and> endswith (word s) (r2 s) \<and> endswith (word s) (rv s) \<and>
      length (r2 s) \<le> length (r1 s) \<and> length (r1 s) \<le> length (word s))"

text \<open>
  A word that came out of another by the edits of the steps: it is no longer, and every
  letter in it is a letter of the other or one of the plain letters the edits write
  (\<open>a\<close>, \<open>e\<close>, \<open>i\<close>, \<open>o\<close>, \<open>u\<close> and the letters of \<open>log\<close> and \<open>ente\<close>).
\<close>

definition edit_of :: "ustring \<Rightarrow> ustring \<Rightarrow> bool" where
  "edit_of w' w = (length w' \<le> length w \<and> set w' \<subseteq> set w \<union> set (lit ''aegilnotu''))"

section \<open>Facts about the string operations\<close>

lemma length_lit [simp]: "length (lit s) = length s"
  by (simp add: lit_def)

lemma lit_Cons: "lit (c # s) = Latin1 c # lit s" and lit_Nil: "lit [] = []"
  by (simp_all add: lit_def)

lemma lit_eq_iff [simp]: "lit a = lit b \<longleftrightarrow> a = b"
  unfolding lit_def by (simp add: inj_on_def inj_map_eq_map [of Latin1])

lemma lit_empty_iff [simp]: "lit s = [] \<longleftrightarrow> s = []" "[] = lit s \<longleftrightarrow> s = []"
  by (auto simp: lit_def)

lemma set_lit [simp]: "set (lit s) = Latin1 ` set s"
  by (simp add: lit_def)

lemma lit_append: "lit (a @ b) = lit a @ lit b"
  by (simp add: lit_def)

lemma endswith_iff: "endswith w s \<longleftrightarrow> (\<exists>p. w = p @ s)"
  unfolding endswith_def
  by (metis append_eq_conv_conj append_take_drop_id diff_add_inverse2 le_add2 length_append)

lemma length_strip_last [simp]: "length (strip_last n w) \<le> length w"
  by (simp add: strip_last_def)

lemma length_strip_last_less: "0 < n \<Longrightarrow> w \<noteq> [] \<Longrightarrow> length (strip_last n w) < length w"
  by (simp add: strip_last_def)

lemma set_strip_last: "set (strip_last n w) \<subseteq> set w"
  by (auto simp: strip_last_def dest: in_set_takeD)

lemma replace_scan_single:
  "replace_scan [c] [d] w = map (\<lambda>x. if x = c then d else x) w"
  by (induction w) simp_all

lemma replace_single: "replace [c] [d] w = map (\<lambda>x. if x = c then d else x) w"
  by (simp add: replace_def replace_scan_single)

lemma take_eq_length: "take (length old) w = old \<Longrightarrow> length old \<le> length w"
proof -
  assume a: "take (length old) w = old"
  have "length (take (length old) w) = length old" by (simp only: a)
  then show ?thesis by simp
qed

lemma length_replace_scan:
  "length new \<le> length old \<Longrightarrow> length (replace_scan old new w) \<le> length w"
proof (induction old new w rule: replace_scan.induct)
  case (1 old new)
  then show ?case by simp
next
  case (2 old new x xs)
  show ?case
  proof (cases "old \<noteq> [] \<and> take (length old) (x # xs) = old")
    case True
    then have "length old \<le> length (x # xs)" by (intro take_eq_length) simp
    with True 2 show ?thesis by simp
  next
    case False
    with 2 show ?thesis by auto
  qed
qed

lemma set_replace_scan: "set (replace_scan old new w) \<subseteq> set w \<union> set new"
proof (induction old new w rule: replace_scan.induct)
  case (1 old new)
  then show ?case by simp
next
  case (2 old new x xs)
  have "set (drop (length old) (x # xs)) \<subseteq> set (x # xs)"
    by (rule set_drop_subset)
  with 2 show ?case by (cases "old \<noteq> [] \<and> take (length old) (x # xs) = old") auto
qed

lemma length_replace_scan_less:
  "length new < length old \<Longrightarrow> endswith w old \<Longrightarrow>
   length (replace_scan old new w) < length w"
proof (induction old new w rule: replace_scan.induct)
  case (1 old new)
  then show ?case by (simp add: endswith_def)
next
  case (2 old new x xs)
  show ?case
  proof (cases "old \<noteq> [] \<and> take (length old) (x # xs) = old")
    case True
    have "length (replace_scan old new (drop (length old) (x # xs)))
            \<le> length (drop (length old) (x # xs))"
      using "2.prems"(1) by (intro length_replace_scan) simp
    moreover have "length old \<le> length (x # xs)"
      using "2.prems"(2) by (simp add: endswith_def)
    ultimately show ?thesis using True "2.prems"(1) by simp
  next
    case False
    have ne: "old \<noteq> []" using "2.prems"(1) by auto
    have "length old \<le> length xs"
    proof (rule ccontr)
      assume "\<not> length old \<le> length xs"
      with "2.prems"(2) have "length old = Suc (length xs)" and "x # xs = old"
        by (auto simp: endswith_def)
      with False ne show False by simp
    qed
    with "2.prems"(2) have "endswith xs old"
      by (auto simp: endswith_def Suc_diff_le)
    with "2.IH"(2) False "2.prems"(1) have "length (replace_scan old new xs) < length xs"
      by blast
    with False show ?thesis by auto
  qed
qed

section \<open>The word only shrinks, and only plain letters are written\<close>

lemma edit_of_refl: "edit_of w w"
  unfolding edit_of_def by blast

lemma edit_of_trans: "edit_of a b \<Longrightarrow> edit_of b c \<Longrightarrow> edit_of a c"
  unfolding edit_of_def by auto

lemma edit_of_strip: "edit_of w w' \<Longrightarrow> edit_of (strip_last n w) w'"
proof -
  assume a: "edit_of w w'"
  have "edit_of (strip_last n w) w"
    using set_strip_last [of n w] length_strip_last [of n w]
    unfolding edit_of_def by blast
  then show ?thesis using a by (rule edit_of_trans)
qed

lemma edit_of_replace:
  assumes "old \<noteq> []" "length new \<le> length old" "set new \<subseteq> set (lit ''aegilnotu'')"
    and "edit_of w w'"
  shows "edit_of (replace old new w) w'"
proof -
  have "length (replace old new w) \<le> length w"
    using assms(1,2) by (simp add: replace_def length_replace_scan)
  moreover have "set (replace old new w) \<subseteq> set w \<union> set new"
    using assms(1) by (simp add: replace_def set_replace_scan)
  ultimately have "edit_of (replace old new w) w"
    using assms(3) unfolding edit_of_def by blast
  then show ?thesis using assms(4) by (rule edit_of_trans)
qed

lemma edit_of_unaccent_aei: "edit_of w w' \<Longrightarrow> edit_of (unaccent_aei w) w'"
  unfolding unaccent_aei_def by (intro edit_of_replace) simp_all

lemma edit_of_unaccent: "edit_of w w' \<Longrightarrow> edit_of (unaccent w) w'"
  unfolding unaccent_def by (intro edit_of_replace) simp_all

lemmas edit_intros = edit_of_refl edit_of_strip edit_of_unaccent_aei

lemma step0_branch_edit: "edit_of (word (step0_branch suffix s)) (word s)"
  by (simp add: step0_branch_def Let_def edit_intros)

lemma step0_loop_edit: "edit_of (word (step0_loop sufs s)) (word s)"
  by (induction sufs) (simp_all add: step0_body_def step0_branch_edit edit_of_refl)

lemma step1_amente_edit: "edit_of (word (step1_amente s)) (word s)"
  by (simp add: step1_amente_def Let_def edit_intros)

lemma strip_pre_suff_edit: "edit_of (word s) w \<Longrightarrow> edit_of (word (strip_pre_suff p s)) w"
  by (simp add: strip_pre_suff_def edit_intros)

lemma edit_of_replace_short:
  "old \<noteq> [] \<Longrightarrow> length new \<le> length old \<Longrightarrow> set new \<subseteq> set (lit ''aegilnotu'') \<Longrightarrow>
   edit_of (replace old new w) w"
  by (rule edit_of_replace [OF _ _ _ edit_of_refl])

lemma replace_log_edit:
  "suffix \<in> set [lit (''log'' @ [CHR 0xED] @ ''a''), lit (''log'' @ [CHR 0xED] @ ''as'')] \<Longrightarrow>
   edit_of (replace suffix (lit ''log'') w) w"
  by (rule edit_of_replace_short) auto

lemma replace_u_edit:
  "suffix \<in> set [lit (''uci'' @ [CHR 0xF3] @ ''n''), lit ''uciones''] \<Longrightarrow>
   edit_of (replace suffix (lit ''u'') w) w"
  by (rule edit_of_replace_short) auto

lemma replace_ente_edit:
  "suffix \<in> set [lit ''encia'', lit ''encias''] \<Longrightarrow> edit_of (replace suffix (lit ''ente'') w) w"
  by (rule edit_of_replace_short) auto

lemma fold_strip_pre_suff_edit:
  "edit_of (word s) w \<Longrightarrow> edit_of (word (fold strip_pre_suff ps s)) w"
  by (induction ps arbitrary: s) (simp_all add: strip_pre_suff_edit)

lemma step1_r2_edit: "edit_of (word (step1_r2 suffix s)) (word s)"
proof (cases "suffix = lit ''mente''")
  case True
  then show ?thesis
    unfolding step1_r2_def Let_def by (simp add: edit_intros)
next
  case False
  then show ?thesis
    unfolding step1_r2_def Let_def
    by (simp add: edit_intros replace_log_edit replace_u_edit replace_ente_edit
          fold_strip_pre_suff_edit strip_pre_suff_edit del: set_simps)
qed

lemma step1_loop_edit: "edit_of (word (step1_loop sufs s)) (word s)"
  by (induction sufs)
     (simp_all add: step1_body_def step1_amente_edit step1_r2_edit edit_of_refl)

lemma step2a_loop_edit: "edit_of (word (step2a_loop sufs s)) (word s)"
  by (induction sufs) (simp_all add: edit_intros)

lemma step2b_body_edit: "edit_of (word (step2b_body suffix s)) (word s)"
  by (simp add: step2b_body_def Let_def edit_intros)

lemma step2b_loop_edit: "edit_of (word (step2b_loop sufs s)) (word s)"
  by (induction sufs) (simp_all add: step2b_body_edit edit_of_refl)

lemma step3_body_edit: "step3_body suffix s = Inr s' \<Longrightarrow> edit_of (word s') (word s)"
  by (auto simp: step3_body_def Let_def edit_intros split: if_splits)

lemma step3_loop_edit: "step3_loop sufs s = Inr s' \<Longrightarrow> edit_of (word s') (word s)"
  by (induction sufs) (auto simp: step3_body_edit edit_of_refl split: if_splits)

lemma step2_edit: "edit_of (word (step2 s)) (word s)"
proof (cases "step1_success s")
  case True
  then show ?thesis by (simp add: step2_def edit_of_refl)
next
  case False
  have "edit_of (word (step2b (step2a s))) (word (step2a s))"
    unfolding step2b_def by (rule step2b_loop_edit)
  moreover have "edit_of (word (step2a s)) (word s)"
    unfolding step2a_def by (rule step2a_loop_edit)
  ultimately show ?thesis using False by (auto simp: step2_def intro: edit_of_trans)
qed

lemma run_edit: "run s = Inr r \<Longrightarrow> edit_of r (word s)"
proof -
  assume a: "run s = Inr r"
  then obtain s3 where s3: "step3 (step2 (step1 (step0 s))) = Inr s3" and r: "r = unaccent (word s3)"
    by (auto simp: run_def split: sum.splits)
  have "edit_of (word s3) (word (step2 (step1 (step0 s))))"
    using s3 unfolding step3_def by (rule step3_loop_edit)
  moreover have "edit_of (word (step2 (step1 (step0 s)))) (word (step1 (step0 s)))"
    by (rule step2_edit)
  moreover have "edit_of (word (step1 (step0 s))) (word (step0 s))"
    unfolding step1_def by (rule step1_loop_edit)
  moreover have "edit_of (word (step0 s)) (word s)"
    unfolding step0_def by (rule step0_loop_edit)
  ultimately have "edit_of (word s3) (word s)"
    by (blast intro: edit_of_trans)
  then show ?thesis unfolding r by (rule edit_of_unaccent)
qed

lemma word_init: "word (init w) = lower w"
  by (simp add: init_def Let_def split: prod.splits)

lemma stem_length: "stem w = Inr r \<Longrightarrow> length r \<le> length (lower w)"
  using run_edit [of "init w" r] by (simp add: stem_def word_init edit_of_def)

lemma of_char_less_256: "(of_char c :: nat) < 256"
  by (metis of_char_mod_256 mod_less_divisor zero_less_numeral)

lemma lower_char_idem: "lower_char (lower_char c) = lower_char c"
proof -
  have b: "(of_char c :: nat) < 256" by (rule of_char_less_256)
  show ?thesis
    using b unfolding lower_char_def Let_def
    by (auto simp: of_char_of)
qed

text \<open>A code point is lowercase when \<^verbatim>\<open>str.lower\<close> leaves it as it is.\<close>

lemma lower_codepoint_lowercase:
  "d \<in> set (lower_codepoint c) \<Longrightarrow> lower_codepoint d = [d]"
  by (cases c) (auto simp: lower_char_idem lower_char_def Let_def)

lemma lower_fixed: "(\<And>d. d \<in> set r \<Longrightarrow> lower_codepoint d = [d]) \<Longrightarrow> lower r = r"
  unfolding lower_def by (induction r) simp_all

lemma set_lower_lowercase: "d \<in> set (lower w) \<Longrightarrow> lower_codepoint d = [d]"
  unfolding lower_def by (auto dest: lower_codepoint_lowercase)

lemma lower_idem: "lower (lower w) = lower w"
  by (rule lower_fixed) (rule set_lower_lowercase)

lemma lower_codepoint_plain:
  "c \<in> set (lit ''aegilnotu'') \<Longrightarrow> lower_codepoint c = [c]"
  by (auto simp: lower_char_def Let_def)

lemma length_lower_codepoint: "length (lower_codepoint c) = (if c = U0130 then 2 else 1)"
  by (cases c) simp_all

lemma length_lower: "U0130 \<notin> set w \<Longrightarrow> length (lower w) = length w"
  unfolding lower_def by (induction w) (auto simp: length_lower_codepoint)

lemma unaccent_map:
  "unaccent w =
     map (\<lambda>c. if c = Latin1 (CHR 0xE1) then Latin1 (CHR ''a'')
              else if c = Latin1 (CHR 0xE9) then Latin1 (CHR ''e'')
              else if c = Latin1 (CHR 0xED) then Latin1 (CHR ''i'')
              else if c = Latin1 (CHR 0xF3) then Latin1 (CHR ''o'')
              else if c = Latin1 (CHR 0xFA) then Latin1 (CHR ''u'') else c) w"
  by (simp add: unaccent_def lit_def replace_single)

lemma unaccent_free:
  "Latin1 (CHR 0xE1) \<notin> set (unaccent w) \<and> Latin1 (CHR 0xE9) \<notin> set (unaccent w) \<and>
   Latin1 (CHR 0xED) \<notin> set (unaccent w) \<and> Latin1 (CHR 0xF3) \<notin> set (unaccent w) \<and>
   Latin1 (CHR 0xFA) \<notin> set (unaccent w)"
  by (auto simp: unaccent_map)

lemma run_unaccent: "run s = Inr r \<Longrightarrow> \<exists>w. r = unaccent w"
  by (auto simp: run_def split: sum.splits)

lemma stem_lower: "stem w = Inr r \<Longrightarrow> lower r = r"
proof -
  assume a: "stem w = Inr r"
  then have e: "edit_of r (lower w)"
    using run_edit [of "init w" r] by (simp add: stem_def word_init)
  have "lower_codepoint c = [c]" if "c \<in> set r" for c
  proof -
    from e that have "c \<in> set (lower w) \<or> c \<in> set (lit ''aegilnotu'')"
      unfolding edit_of_def by blast
    then show ?thesis
    proof
      assume "c \<in> set (lower w)"
      then show ?thesis by (rule set_lower_lowercase)
    next
      assume "c \<in> set (lit ''aegilnotu'')"
      then show ?thesis by (rule lower_codepoint_plain)
    qed
  qed
  then show ?thesis by (rule lower_fixed)
qed

lemma init_lower: "init (lower w) = init w"
  by (simp add: init_def lower_idem)


section \<open>The stemmer on concrete words\<close>

text \<open>
  Claim C1 (the algorithm is total: \<^verbatim>\<open>stem\<close> returns a string for every input and never
  raises). Step 3 reads \<^verbatim>\<open>rv[-1]\<close> after it has removed a final \<open>e\<close> from RV; when RV
  was that \<open>e\<close> alone and the word now ends with \<open>gu\<close>, the index is read on the empty
  string. The word \<open>irgue\<close> is such an input: the call raises \<^verbatim>\<open>IndexError\<close>.
\<close>

theorem stem_irgue_raises: "stem (lit ''irgue'') = Inl IndexError"
  by code_simp

text \<open>
  Claim C7 (a rewrite rule of the \<^verbatim>\<open>log\xEDa\<close> family changes only the final occurrence
  of the suffix). The rule calls \<^verbatim>\<open>word.replace(suffix, "log")\<close>, which rewrites every
  occurrence: in a word that holds the suffix twice, the letters in front of the final
  occurrence are changed too.
\<close>

theorem step1_replace_rewrites_inner_occurrence:
  "word (step0 (init (lit (''alog'' @ [CHR 0xED] @ ''alog'' @ [CHR 0xED] @ ''a''))))
     = lit (''alog'' @ [CHR 0xED] @ ''alog'' @ [CHR 0xED] @ ''a'') \<and>
   word (step1 (step0 (init (lit (''alog'' @ [CHR 0xED] @ ''alog'' @ [CHR 0xED] @ ''a'')))))
     = lit ''aloglog'' \<and>
   stem (lit (''alog'' @ [CHR 0xED] @ ''alog'' @ [CHR 0xED] @ ''a'')) = Inr (lit ''aloglog'')"
  by code_simp

text \<open>
  Claim C8 as stated (the literal scenarios, among them \<open>claridad\<close> to \<open>clar\<close>) fails
  on \<open>claridad\<close>: R2 of that word is \<open>ad\<close>, the suffix \<open>idad\<close> does not lie in it, and
  step 2b removes \<open>ad\<close> only.
\<close>

theorem stem_claridad_counterexample: "stem (lit ''claridad'') \<noteq> Inr (lit ''clar'')"
  by code_simp

text \<open>
  Claim C8, amended: the literal scenarios hold with \<open>claridad\<close> stemmed to \<open>clarid\<close>;
  the other five are as the specification lists them.
\<close>

theorem stem_literal_scenarios:
  "stem (lit ''corriendo'') = Inr (lit ''corr'') \<and>
   stem (lit ''comiendo'') = Inr (lit ''com'') \<and>
   stem (lit ''claridad'') = Inr (lit ''clarid'') \<and>
   stem (lit (''r'' @ [CHR 0xE1] @ ''pidamente'')) = Inr (lit ''rapid'') \<and>
   stem (lit ''amigos'') = Inr (lit ''amig'') \<and>
   stem [] = Inr []"
  by code_simp

section \<open>Properties of every call that returns\<close>

text \<open>
  Claim C2: for every input, the string that \<^verbatim>\<open>stem\<close> returns holds none of the accented
  vowels \<^verbatim>\<open>\xE1\<close>, \<^verbatim>\<open>\xE9\<close>, \<^verbatim>\<open>\xED\<close>, \<^verbatim>\<open>\xF3\<close>, \<^verbatim>\<open>\xFA\<close>, and it is lowercase: it
  is equal to its own lowercasing.
\<close>

theorem stem_output_unaccented_lowercase:
  "stem w = Inr r \<Longrightarrow>
   Latin1 (CHR 0xE1) \<notin> set r \<and> Latin1 (CHR 0xE9) \<notin> set r \<and>
   Latin1 (CHR 0xED) \<notin> set r \<and> Latin1 (CHR 0xF3) \<notin> set r \<and>
   Latin1 (CHR 0xFA) \<notin> set r \<and> lower r = r"
proof -
  assume a: "stem w = Inr r"
  then obtain v where "r = unaccent v"
    using run_unaccent [of "init w" r] by (auto simp: stem_def)
  then show ?thesis using unaccent_free [of v] stem_lower [OF a] by simp
qed

theorem stem_output_unaccented_lowercase_witness:
  "stem (lit (''R'' @ [CHR 0xC1] @ ''PIDAMENTE'')) = Inr (lit ''rapid'') \<and>
   Latin1 (CHR 0xE1) \<notin> set (lit ''rapid'') \<and> Latin1 (CHR 0xE9) \<notin> set (lit ''rapid'') \<and>
   Latin1 (CHR 0xED) \<notin> set (lit ''rapid'') \<and> Latin1 (CHR 0xF3) \<notin> set (lit ''rapid'') \<and>
   Latin1 (CHR 0xFA) \<notin> set (lit ''rapid'') \<and> lower (lit ''rapid'') = lit ''rapid''"
proof -
  have h: "stem (lit (''R'' @ [CHR 0xC1] @ ''PIDAMENTE'')) = Inr (lit ''rapid'')"
    by code_simp
  show ?thesis
    using h stem_output_unaccented_lowercase [OF h] by simp
qed

text \<open>
  Claim C5 as stated (for every input, the string that \<^verbatim>\<open>stem\<close> returns is at most as
  long as the input) fails on the one-letter string U+0130: \<^verbatim>\<open>word.lower()\<close> turns it
  into two code points, no step changes them, and the call returns both.
\<close>

theorem stem_U0130_longer_counterexample:
  "stem [U0130] = Inr [Latin1 (CHR ''i''), U0307] \<and>
   \<not> length [Latin1 (CHR ''i''), U0307] \<le> length [U0130]"
  by code_simp

text \<open>
  Claim C5, amended: for every input, the string that \<^verbatim>\<open>stem\<close> returns is at most as
  long as the lowercased input \<^verbatim>\<open>word.lower()\<close>; for every input without the code point
  U+0130 it is at most as long as the input.
\<close>

theorem stem_output_not_longer_than_lowered:
  "stem w = Inr r \<Longrightarrow>
   length r \<le> length (lower w) \<and> (U0130 \<notin> set w \<longrightarrow> length r \<le> length w)"
  using stem_length [of w r] length_lower [of w] by auto

theorem stem_output_not_longer_than_lowered_witness:
  "stem (lit ''CORRIENDO'') = Inr (lit ''corr'') \<and>
   U0130 \<notin> set (lit ''CORRIENDO'') \<and>
   length (lit ''corr'') \<le> length (lower (lit ''CORRIENDO'')) \<and>
   length (lit ''corr'') \<le> length (lit ''CORRIENDO'')"
proof -
  have h: "stem (lit ''CORRIENDO'') = Inr (lit ''corr'')"
    by code_simp
  have u: "U0130 \<notin> set (lit ''CORRIENDO'')"
    by auto
  show ?thesis
    using h u stem_output_not_longer_than_lowered [OF h] by simp
qed

text \<open>
  Claim C10: stemming is case-insensitive, \<^verbatim>\<open>stem(w) = stem(w.lower())\<close> for every input,
  since the word is lowercased before the regions are computed and before any test.
\<close>

theorem stem_case_insensitive: "stem (lower w) = stem w"
  by (simp add: stem_def init_lower)

text \<open>
  Claim C9: \<^verbatim>\<open>\xFC\<close> is among the vowels that the regions are computed with (in
  \<open>ag\<close>\<^verbatim>\<open>\xFC\<close>\<open>ita\<close> RV starts behind it), the last statement of \<^verbatim>\<open>stem\<close> never changes
  it, and some returned stems hold it.
\<close>

theorem u_diaeresis_vowel_kept:
  "Latin1 (CHR 0xFC) \<in> set vowels \<and>
   rv (init (lit (''ag'' @ [CHR 0xFC] @ ''ita''))) = lit ''ita'' \<and>
   filter (\<lambda>c. c = Latin1 (CHR 0xFC)) (unaccent w) = filter (\<lambda>c. c = Latin1 (CHR 0xFC)) w \<and>
   stem (lit (''ag'' @ [CHR 0xFC] @ ''ita'')) = Inr (lit (''ag'' @ [CHR 0xFC] @ ''it'')) \<and>
   stem (lit (''ping'' @ [CHR 0xFC] @ ''inos'')) = Inr (lit (''ping'' @ [CHR 0xFC] @ ''in''))"
proof (intro conjI)
  show "Latin1 (CHR 0xFC) \<in> set vowels"
    by (simp add: vowels_def)
  show "rv (init (lit (''ag'' @ [CHR 0xFC] @ ''ita''))) = lit ''ita''"
    by code_simp
  show "filter (\<lambda>c. c = Latin1 (CHR 0xFC)) (unaccent w) = filter (\<lambda>c. c = Latin1 (CHR 0xFC)) w"
    unfolding unaccent_map by (induction w) simp_all
  show "stem (lit (''ag'' @ [CHR 0xFC] @ ''ita'')) = Inr (lit (''ag'' @ [CHR 0xFC] @ ''it''))"
    by code_simp
  show "stem (lit (''ping'' @ [CHR 0xFC] @ ''inos'')) = Inr (lit (''ping'' @ [CHR 0xFC] @ ''in''))"
    by code_simp
qed

section \<open>Step 0 and the order of its table\<close>

lemma endswith_comparable:
  assumes "endswith w a" "endswith w r" "length r \<le> length a"
  shows "endswith a r"
proof -
  from assms(1) have a: "length a \<le> length w" "drop (length w - length a) w = a"
    by (simp_all add: endswith_def)
  from assms(2) have r: "length r \<le> length w" "drop (length w - length r) w = r"
    by (simp_all add: endswith_def)
  have "drop (length a - length r) a = drop (length a - length r) (drop (length w - length a) w)"
    by (simp only: a(2))
  also have "\<dots> = drop (length w - length r) w"
    using a(1) assms(3) by simp
  finally show ?thesis using r(2) assms(3) by (simp add: endswith_def)
qed

lemma endswith_trans: "endswith a r \<Longrightarrow> endswith r b \<Longrightarrow> endswith a b"
  unfolding endswith_iff by auto

lemma endswith_length: "endswith w s \<Longrightarrow> length s \<le> length w"
  by (simp add: endswith_def)

lemma endswith_same_length:
  assumes "endswith w s" "length w \<le> length s"
  shows "w = s"
proof -
  from assms have "length w - length s = 0" by simp
  moreover from assms(1) have "drop (length w - length s) w = s"
    unfolding endswith_def by blast
  ultimately show ?thesis by simp
qed

lemma step0_branch_short:
  "length (strip_last (length b) (rv s)) < 2 \<Longrightarrow> step0_branch b s = s"
  by (simp add: step0_branch_def Let_def endswith_any_def endswith_def)

lemma step0_table_nested:
  "list_all (\<lambda>a. list_all (\<lambda>b. \<not> endswith a b \<or> a = b \<or> length a = length b + 2)
      step0_suffixes) step0_suffixes"
  by code_simp

lemma step0_table_nonempty: "list_all (\<lambda>a. a \<noteq> []) step0_suffixes"
  by code_simp

lemma step0_loop_first_both:
  assumes skip: "\<And>a b. a \<in> set sufs \<Longrightarrow> b \<in> set sufs \<Longrightarrow> endswith (word s) a \<Longrightarrow>
      \<not> endswith (rv s) a \<Longrightarrow> endswith (word s) b \<Longrightarrow> endswith (rv s) b \<Longrightarrow>
      step0_branch b s = s"
  shows "step0_loop sufs s =
     (case find (\<lambda>suffix. endswith (word s) suffix \<and> endswith (rv s) suffix) sufs of
        None \<Rightarrow> s | Some suffix \<Rightarrow> step0_branch suffix s)"
  using skip
proof (induction sufs)
  case Nil
  then show ?case by simp
next
  case (Cons x xs)
  show ?case
  proof (cases "endswith (word s) x")
    case False
    have "step0_loop xs s =
      (case find (\<lambda>suffix. endswith (word s) suffix \<and> endswith (rv s) suffix) xs of
         None \<Rightarrow> s | Some suffix \<Rightarrow> step0_branch suffix s)"
      by (rule Cons.IH) (rule Cons.prems, simp_all)
    with False show ?thesis by simp
  next
    case w: True
    show ?thesis
    proof (cases "endswith (rv s) x")
      case True
      with w show ?thesis by (simp add: step0_body_def)
    next
      case False
      have "(case find (\<lambda>suffix. endswith (word s) suffix \<and> endswith (rv s) suffix) xs of
               None \<Rightarrow> s | Some suffix \<Rightarrow> step0_branch suffix s) = s"
      proof (cases "find (\<lambda>suffix. endswith (word s) suffix \<and> endswith (rv s) suffix) xs")
        case None
        then show ?thesis by simp
      next
        case (Some b)
        then have b: "b \<in> set xs" "endswith (word s) b" "endswith (rv s) b"
          by (auto simp: find_Some_iff)
        have "step0_branch b s = s"
          by (rule Cons.prems [of x b]) (use b w False in simp_all)
        with Some show ?thesis by simp
      qed
      with w False show ?thesis by (simp add: step0_body_def)
    qed
  qed
qed

lemma step0_table_skip:
  assumes rv: "endswith (word s) (rv s)"
    and a: "a \<in> set step0_suffixes" and b: "b \<in> set step0_suffixes"
    and wa: "endswith (word s) a" and nra: "\<not> endswith (rv s) a"
    and rb: "endswith (rv s) b"
  shows "step0_branch b s = s"
proof -
  have short: "length (rv s) < length a"
  proof (rule ccontr)
    assume "\<not> length (rv s) < length a"
    then have "length a \<le> length (rv s)" by simp
    then have "endswith (rv s) a" by (rule endswith_comparable [OF rv wa])
    with nra show False by contradiction
  qed
  then have "endswith a (rv s)"
    using endswith_comparable [OF wa rv] by simp
  then have ab: "endswith a b" using rb by (rule endswith_trans)
  have "length b \<le> length (rv s)" using rb by (rule endswith_length)
  with short have ne: "a \<noteq> b" by auto
  have "\<not> endswith a b \<or> a = b \<or> length a = length b + 2"
    using step0_table_nested a b unfolding list_all_iff by blast
  with ab ne have "length a = length b + 2" by blast
  with short have "length (rv s) < length b + 2" by simp
  moreover have "b \<noteq> []"
    using step0_table_nonempty b unfolding list_all_iff by blast
  ultimately have "length (strip_last (length b) (rv s)) < 2"
    by (simp add: strip_last_def)
  then show ?thesis by (rule step0_branch_short)
qed

section \<open>Step 1 and the gate of steps 2a and 2b\<close>

lemma endswith_nonempty: "endswith w suffix \<Longrightarrow> suffix \<noteq> [] \<Longrightarrow> w \<noteq> []"
  by (auto simp: endswith_def)

lemma strip_less_mono: "length x < k \<Longrightarrow> length (strip_last n x) < k"
  by (rule le_less_trans [OF length_strip_last])

lemma length_replace_less:
  "endswith w old \<Longrightarrow> length new < length old \<Longrightarrow> length (replace old new w) < length w"
  by (auto simp: replace_def length_replace_scan_less)

lemma step1_amente_shorter:
  "word s \<noteq> [] \<Longrightarrow> length (word (step1_amente s)) < length (word s)"
  by (simp add: step1_amente_def Let_def length_strip_last_less strip_less_mono)

lemma step1_amente_flag: "step1_success (step1_amente s)"
  by (simp add: step1_amente_def Let_def)

lemma strip_pre_suff_less:
  "length (word t) < k \<Longrightarrow> length (word (strip_pre_suff p t)) < k"
  by (simp add: strip_pre_suff_def strip_less_mono)

lemma strip_pre_suff_flag: "step1_success (strip_pre_suff p t) = step1_success t"
  by (simp add: strip_pre_suff_def)

lemma step1_r2_flag: "step1_success (step1_r2 suffix s)"
  unfolding step1_r2_def Let_def by (simp add: strip_pre_suff_flag del: set_simps)

lemma step1_r2_shorter:
  assumes e: "endswith (word s) suffix" and ne: "suffix \<noteq> []"
  shows "length (word (step1_r2 suffix s)) < length (word s)"
proof -
  have w: "word s \<noteq> []" using e ne by (rule endswith_nonempty)
  have n: "0 < length suffix" using ne by simp
  have strip: "length (strip_last (length suffix) (word s)) < length (word s)"
    using n w by (rule length_strip_last_less)
  have rlog: "length (replace suffix (lit ''log'') (word s)) < length (word s)"
    if "suffix \<in> set [lit (''log'' @ [CHR 0xED] @ ''a''), lit (''log'' @ [CHR 0xED] @ ''as'')]"
    using e by (rule length_replace_less) (use that in auto)
  have ru: "length (replace suffix (lit ''u'') (word s)) < length (word s)"
    if "suffix \<in> set [lit (''uci'' @ [CHR 0xF3] @ ''n''), lit ''uciones'']"
    using e by (rule length_replace_less) (use that in auto)
  have rente: "length (replace suffix (lit ''ente'') (word s)) < length (word s)"
    if "suffix \<in> set [lit ''encia'', lit ''encias'']"
    using e by (rule length_replace_less) (use that in auto)
  have m5: "length (strip_last 5 (word s)) < length (word s)"
    using w by (simp add: length_strip_last_less)
  show ?thesis
  proof (cases "suffix = lit ''mente''")
    case True
    then show ?thesis
      unfolding step1_r2_def Let_def by (simp add: m5 strip_less_mono)
  next
    case False
    then show ?thesis
      unfolding step1_r2_def Let_def
      by (simp add: strip rlog ru rente strip_less_mono strip_pre_suff_less del: set_simps)
  qed
qed

lemma step1_body_cases:
  assumes "endswith (word s) suffix" "suffix \<noteq> []"
  shows "step1_body suffix s = s \<or>
     (step1_success (step1_body suffix s) \<and>
      length (word (step1_body suffix s)) < length (word s))"
  using step1_r2_shorter [OF assms] step1_amente_shorter [OF endswith_nonempty [OF assms]]
  by (simp add: step1_body_def step1_amente_flag step1_r2_flag)

lemma step1_loop_cases:
  "[] \<notin> set sufs \<Longrightarrow>
   step1_loop sufs s = s \<or>
     (step1_success (step1_loop sufs s) \<and>
      length (word (step1_loop sufs s)) < length (word s))"
proof (induction sufs)
  case Nil
  then show ?case by simp
next
  case (Cons x xs)
  show ?case
  proof (cases "endswith (word s) x")
    case True
    moreover have "x \<noteq> []" using Cons.prems by auto
    ultimately show ?thesis using step1_body_cases [of s x] by simp
  next
    case False
    with Cons show ?thesis by simp
  qed
qed

lemma step1_table_nonempty: "[] \<notin> set step1_suffixes"
  by (auto simp: step1_suffixes_def)

lemma step1_cases:
  "step1 s = s \<or> (step1_success (step1 s) \<and> length (word (step1 s)) < length (word s))"
  unfolding step1_def by (rule step1_loop_cases) (rule step1_table_nonempty)

lemma step1_flag_iff_removal:
  "\<not> step1_success s \<Longrightarrow> step1_success (step1 s) \<longleftrightarrow> word (step1 s) \<noteq> word s"
  using step1_cases [of s] by auto

lemma step0_loop_flag: "step1_success (step0_loop sufs s) = step1_success s"
  by (induction sufs) (simp_all add: step0_body_def step0_branch_def Let_def)

lemma step0_flag: "step1_success (step0 s) = step1_success s"
  by (simp add: step0_def step0_loop_flag)

section \<open>The regions along the steps\<close>

lemma endswith_Nil: "endswith w []"
  by (simp add: endswith_def)

lemma endswith_strip_last:
  assumes "endswith w r"
  shows "endswith (strip_last n w) (strip_last n r)"
proof -
  from assms obtain p where w: "w = p @ r" unfolding endswith_iff by blast
  show ?thesis
  proof (cases "n = 0 \<or> length r < n")
    case True
    then have "strip_last n r = []" by (auto simp: strip_last_def)
    then show ?thesis by (simp add: endswith_Nil)
  next
    case False
    then have "n \<le> length r" and "0 < n" by auto
    then have "strip_last n w = p @ strip_last n r"
      by (auto simp: strip_last_def w)
    then show ?thesis unfolding endswith_iff by blast
  qed
qed

lemma endswith_map: "endswith w r \<Longrightarrow> endswith (map f w) (map f r)"
  unfolding endswith_iff by auto

lemma unaccent_aei_map:
  "unaccent_aei w =
     map (\<lambda>c. if c = Latin1 (CHR 0xE1) then Latin1 (CHR ''a'')
              else if c = Latin1 (CHR 0xE9) then Latin1 (CHR ''e'')
              else if c = Latin1 (CHR 0xED) then Latin1 (CHR ''i'') else c) w"
  by (simp add: unaccent_aei_def lit_def replace_single)

lemma endswith_unaccent_aei: "endswith w r \<Longrightarrow> endswith (unaccent_aei w) (unaccent_aei r)"
  unfolding unaccent_aei_map by (rule endswith_map)

lemma length_unaccent_aei: "length (unaccent_aei w) = length w"
  by (simp add: unaccent_aei_map)

lemma length_strip_last_mono:
  "length a \<le> length b \<Longrightarrow> length (strip_last n a) \<le> length (strip_last n b)"
  by (auto simp: strip_last_def)

lemma step0_branch_valid: "regions_valid s \<Longrightarrow> regions_valid (step0_branch suffix s)"
  unfolding regions_valid_def step0_branch_def Let_def
  by (simp add: endswith_strip_last endswith_unaccent_aei length_unaccent_aei
        length_strip_last_mono)

lemma step0_loop_valid: "regions_valid s \<Longrightarrow> regions_valid (step0_loop sufs s)"
  by (induction sufs) (simp_all add: step0_body_def step0_branch_valid)

lemma step1_amente_r1: "r1 (step1_amente s) = r1 s"
  by (simp add: step1_amente_def Let_def)

lemma strip_pre_suff_r1: "r1 (strip_pre_suff p t) = r1 t"
  by (simp add: strip_pre_suff_def)

lemma strip_pre_suff_r2: "r2 (strip_pre_suff p t) = r2 t"
  by (simp add: strip_pre_suff_def)

lemma step1_r2_r1: "r1 (step1_r2 suffix s) = r1 s"
  unfolding step1_r2_def Let_def by (simp add: strip_pre_suff_r1 del: set_simps)

lemma step1_loop_r1: "r1 (step1_loop sufs s) = r1 s"
  by (induction sufs) (simp_all add: step1_body_def step1_amente_r1 step1_r2_r1)

lemma step2a_loop_regions:
  "r1 (step2a_loop sufs s) = r1 s \<and> r2 (step2a_loop sufs s) = r2 s"
  by (induction sufs) simp_all

lemma step2b_loop_regions:
  "r1 (step2b_loop sufs s) = r1 s \<and> r2 (step2b_loop sufs s) = r2 s"
  by (induction sufs) (simp_all add: step2b_body_def Let_def)

lemma step2_regions: "r1 (step2 s) = r1 s \<and> r2 (step2 s) = r2 s"
  by (simp add: step2_def step2a_def step2b_def step2a_loop_regions step2b_loop_regions)

lemma after_vowel_consonant_suffix: "endswith w (after_vowel_consonant vs w)"
  unfolding endswith_iff
proof (induction vs w rule: after_vowel_consonant.induct)
  case (1 vs a b rest)
  show ?case
  proof (cases "a \<in> set vs \<and> b \<notin> set vs")
    case True
    then have "a # b # rest = [a, b] @ after_vowel_consonant vs (a # b # rest)" by simp
    then show ?thesis by blast
  next
    case False
    with 1 obtain p where "b # rest = p @ after_vowel_consonant vs (b # rest)" by blast
    with False have "a # b # rest = (a # p) @ after_vowel_consonant vs (a # b # rest)"
      by auto
    then show ?thesis by blast
  qed
qed simp_all

lemma after_vowel_suffix: "endswith w (after_vowel vs w)"
  unfolding endswith_iff
proof (induction w)
  case Nil
  then show ?case by simp
next
  case (Cons x xs)
  then obtain p where p: "xs = p @ after_vowel vs xs" by blast
  show ?case
  proof (cases "x \<in> set vs")
    case True
    then have "x # xs = [x] @ after_vowel vs (x # xs)" by simp
    then show ?thesis by blast
  next
    case False
    with p have "x # xs = (x # p) @ after_vowel vs (x # xs)" by simp
    then show ?thesis by blast
  qed
qed

lemma after_consonant_suffix: "endswith w (after_consonant vs w)"
  unfolding endswith_iff
proof (induction w)
  case Nil
  then show ?case by simp
next
  case (Cons x xs)
  then obtain p where p: "xs = p @ after_consonant vs xs" by blast
  show ?case
  proof (cases "x \<notin> set vs")
    case True
    then have "x # xs = [x] @ after_consonant vs (x # xs)" by simp
    then show ?thesis by blast
  next
    case False
    with p have "x # xs = (x # p) @ after_consonant vs (x # xs)" by simp
    then show ?thesis by blast
  qed
qed

lemma endswith_Cons: "endswith w r \<Longrightarrow> endswith (x # w) r"
  unfolding endswith_iff by (metis append_Cons)

lemma rv_standard_suffix: "endswith w (rv_standard w vs)"
proof (cases w)
  case Nil
  then show ?thesis by (simp add: endswith_Nil)
next
  case (Cons a t)
  show ?thesis
  proof (cases t)
    case Nil
    with Cons show ?thesis by (simp add: endswith_Nil)
  next
    case (Cons b rest)
    have "endswith rest (drop 1 rest)"
      unfolding endswith_iff by (metis append_take_drop_id)
    then show ?thesis
      unfolding \<open>w = a # t\<close> Cons
      using after_vowel_suffix [of rest vs] after_consonant_suffix [of rest vs]
      by (auto intro!: endswith_Cons)
  qed
qed

lemma init_valid: "regions_valid (init w)"
proof -
  let ?w = "lower w"
  let ?a = "after_vowel_consonant vowels ?w"
  let ?b = "after_vowel_consonant vowels ?a"
  have a: "endswith ?w ?a" by (rule after_vowel_consonant_suffix)
  have b: "endswith ?a ?b" by (rule after_vowel_consonant_suffix)
  have "endswith ?w ?b" using a b by (rule endswith_trans)
  moreover have "endswith ?w (rv_standard ?w vowels)" by (rule rv_standard_suffix)
  ultimately show ?thesis
    using a b endswith_length [OF a] endswith_length [OF b]
    by (simp add: regions_valid_def init_def r1r2_standard_def Let_def)
qed

text \<open>
  Claim C6: steps 2a and 2b both run exactly when step 1 removed nothing, step 2b after
  step 2a and on its result whether or not step 2a made an edit; when step 1 did remove
  something the word reaches step 3 as step 1 left it. The flag of step 1 is set exactly
  when step 1 changed the word, and the call goes on from step 1 accordingly.
\<close>

theorem steps_2a_2b_run_iff_step1_removed_nothing:
  assumes "\<not> step1_success s"
  shows "(step1_success (step1 (step0 s)) \<longleftrightarrow> word (step1 (step0 s)) \<noteq> word (step0 s)) \<and>
    run s =
      (case step3 (if word (step1 (step0 s)) = word (step0 s)
                   then step2b (step2a (step1 (step0 s)))
                   else step1 (step0 s)) of
         Inl e \<Rightarrow> Inl e
       | Inr s3 \<Rightarrow> Inr (unaccent (word s3)))"
proof -
  have f: "\<not> step1_success (step0 s)"
    using assms by (simp add: step0_flag)
  have iff: "step1_success (step1 (step0 s)) \<longleftrightarrow> word (step1 (step0 s)) \<noteq> word (step0 s)"
    using f by (rule step1_flag_iff_removal)
  then have "step2 (step1 (step0 s)) =
      (if word (step1 (step0 s)) = word (step0 s)
       then step2b (step2a (step1 (step0 s))) else step1 (step0 s))"
    by (simp add: step2_def)
  with iff show ?thesis by (simp add: run_def)
qed

theorem steps_2a_2b_run_iff_step1_removed_nothing_witness:
  "\<not> step1_success (init (lit ''corriendo'')) \<and>
   word (step1 (step0 (init (lit ''corriendo'')))) = word (step0 (init (lit ''corriendo''))) \<and>
   \<not> step1_success (step1 (step0 (init (lit ''corriendo'')))) \<and>
   run (init (lit ''corriendo'')) =
     (case step3 (step2b (step2a (step1 (step0 (init (lit ''corriendo'')))))) of
        Inl e \<Rightarrow> Inl e
      | Inr s3 \<Rightarrow> Inr (unaccent (word s3)))"
proof -
  have h: "\<not> step1_success (init (lit ''corriendo''))"
    by code_simp
  have w: "word (step1 (step0 (init (lit ''corriendo'')))) = word (step0 (init (lit ''corriendo'')))"
    by code_simp
  show ?thesis
    using h w steps_2a_2b_run_iff_step1_removed_nothing [OF h] by simp
qed

text \<open>
  Claim C3 as stated (at every step boundary R1, R2 and RV are suffixes of the current
  word, with \<open>len(r2) \<le> len(r1) \<le> len(word)\<close>) fails behind step 1: for
  \<^verbatim>\<open>r\xE1pidamente\<close> step 1 cuts the word to five letters and leaves R1 as it was,
  \<open>idamente\<close>.
\<close>

theorem regions_stale_after_step1_counterexample:
  "regions_valid (init (lit (''r'' @ [CHR 0xE1] @ ''pidamente''))) \<and>
   regions_valid (step0 (init (lit (''r'' @ [CHR 0xE1] @ ''pidamente'')))) \<and>
   \<not> regions_valid (step1 (step0 (init (lit (''r'' @ [CHR 0xE1] @ ''pidamente''))))) \<and>
   length (word (step1 (step0 (init (lit (''r'' @ [CHR 0xE1] @ ''pidamente'')))))) = 5 \<and>
   r1 (step1 (step0 (init (lit (''r'' @ [CHR 0xE1] @ ''pidamente''))))) = lit ''idamente''"
  by code_simp

text \<open>
  Claim C3, amended: when step 0 starts and at the boundary between step 0 and step 1,
  R1, R2 and RV are suffixes of the current word with \<open>len(r2) \<le> len(r1) \<le> len(word)\<close>:
  step 0 cuts the word and the three regions together. From step 1 on the regions are
  adjusted only as far as they are still read: steps 1, 2a and 2b never change R1, and
  steps 2a and 2b never change R2.
\<close>

theorem regions_valid_through_step0:
  "(regions_valid s \<longrightarrow> regions_valid (step0 s)) \<and>
   regions_valid (init w) \<and> regions_valid (step0 (init w)) \<and>
   r1 (step1 s) = r1 s \<and> r1 (step2 s) = r1 s \<and> r2 (step2 s) = r2 s"
proof -
  have v: "regions_valid t \<Longrightarrow> regions_valid (step0 t)" for t
    unfolding step0_def by (rule step0_loop_valid)
  have "r1 (step1 s) = r1 s"
    unfolding step1_def by (rule step1_loop_r1)
  then show ?thesis
    using v [of s] v [OF init_valid [of w]] init_valid [of w]
    by (simp add: step2_regions)
qed

theorem regions_valid_through_step0_witness:
  "regions_valid (init (lit (''compr'' @ [CHR 0xE1] @ ''rselas''))) \<and>
   regions_valid (step0 (init (lit (''compr'' @ [CHR 0xE1] @ ''rselas'')))) \<and>
   word (step0 (init (lit (''compr'' @ [CHR 0xE1] @ ''rselas'')))) = lit ''comprar'' \<and>
   r1 (step0 (init (lit (''compr'' @ [CHR 0xE1] @ ''rselas'')))) = lit ''prar''"
proof -
  have h: "regions_valid (init (lit (''compr'' @ [CHR 0xE1] @ ''rselas'')))"
    by code_simp
  have w: "word (step0 (init (lit (''compr'' @ [CHR 0xE1] @ ''rselas'')))) = lit ''comprar'' \<and>
           r1 (step0 (init (lit (''compr'' @ [CHR 0xE1] @ ''rselas'')))) = lit ''prar''"
    by code_simp
  show ?thesis
    using h w
      regions_valid_through_step0
        [of "init (lit (''compr'' @ [CHR 0xE1] @ ''rselas''))" "lit (''compr'' @ [CHR 0xE1] @ ''rselas'')"]
    by simp
qed

text \<open>
  Claim C4: in step 0 the suffix acted upon is the first one of the table, in its fixed
  order, that both the word and RV end with, and the three-way test is made on that
  suffix only. The loop itself leaves at the first suffix the word ends with; as RV is a
  suffix of the word when step 0 starts, this is the same: where the loop leaves at a
  suffix that RV does not end with, the shorter suffix that both end with leaves too
  little of RV for any of the three tests to hold. It holds for every state whose RV is
  a suffix of the word, and so in every call.
\<close>

theorem step0_first_suffix_in_word_and_rv:
  "(endswith (word s) (rv s) \<longrightarrow> step0 s = step0_spec s) \<and>
   step0 (init w) = step0_spec (init w)"
proof -
  have g: "endswith (word t) (rv t) \<Longrightarrow> step0 t = step0_spec t" for t
    unfolding step0_def step0_spec_def
    by (rule step0_loop_first_both) (rule step0_table_skip)
  have "endswith (word (init w)) (rv (init w))"
    using init_valid [of w] by (simp add: regions_valid_def)
  then show ?thesis using g by blast
qed

theorem step0_first_suffix_in_word_and_rv_witness:
  "endswith (word (init (lit ''veselas''))) (rv (init (lit ''veselas''))) \<and>
   step0 (init (lit ''veselas'')) = step0_spec (init (lit ''veselas'')) \<and>
   word (step0 (init (lit ''veselas''))) = lit ''veselas''"
proof -
  have h: "endswith (word (init (lit ''veselas''))) (rv (init (lit ''veselas'')))"
    by code_simp
  have w: "word (step0 (init (lit ''veselas''))) = lit ''veselas''"
    by code_simp
  show ?thesis
    using h w step0_first_suffix_in_word_and_rv [of "init (lit ''veselas'')" "lit ''veselas''"]
    by simp
qed

end
